theory Spec2Isabelle
  imports Complex_Main "HOL-Library.Multiset" "HOL-Library.Sublist"
begin

section \<open>Strings\<close>

text \<open>
  A Python \<open>str\<close> is a sequence of Unicode code points, and \<open>len\<close> counts code points.
  It is modelled as a list of natural numbers, one per code point. ASCII literals of the
  source are written \<open>ustr ''...''\<close>.
\<close>

type_synonym ustring = "nat list"

definition ustr :: "string \<Rightarrow> ustring" where
  "ustr s = map of_char s"

section \<open>Batch scheduler: sharding (process_file, line 274)\<close>

text \<open>
  \<open>range(start, stop, step)\<close> for a non-negative start and a positive step. The slice
  \<open>xs[i::k]\<close> reads the indices \<open>range(i, len(xs), k)\<close>. A step of zero raises in Python;
  \<open>process_file\<close> never slices with step zero, since \<open>range(0)\<close> is empty.
\<close>

function py_range :: "nat \<Rightarrow> nat \<Rightarrow> nat \<Rightarrow> nat list" where
  "py_range i n k = (if i < n \<and> 0 < k then i # py_range (i + k) n k else [])"
  by pat_completeness auto
termination
  by (relation "measure (\<lambda>(i, n, k). n - i)") auto

declare py_range.simps [simp del]

definition slice_from_step :: "'a list \<Rightarrow> nat \<Rightarrow> nat \<Rightarrow> 'a list" where
  "slice_from_step xs i k = map (\<lambda>j. xs ! j) (py_range i (length xs) k)"

text \<open>\<open>batches = [matches[i::len(translators)] for i in range(len(translators))]\<close>\<close>

definition make_batches :: "'a list \<Rightarrow> nat \<Rightarrow> 'a list list" where
  "make_batches matches k = map (\<lambda>i. slice_from_step matches i k) [0..<k]"

section \<open>Properties of the scheduler\<close>

lemma py_range_stop: "\<not> (i < n \<and> 0 < k) \<Longrightarrow> py_range i n k = []"
  by (subst py_range.simps) simp

lemma py_range_step: "i < n \<Longrightarrow> 0 < k \<Longrightarrow> py_range i n k = i # py_range (i + k) n k"
  by (subst py_range.simps) simp

lemma dvd_step:
  assumes "0 < (k::nat)" "i \<le> j" "k dvd (j - i)" "j \<noteq> i"
  shows "i + k \<le> j \<and> k dvd (j - (i + k))"
proof -
  have "0 < j - i" using assms by arith
  then have le: "k \<le> j - i" using assms(3) by (simp add: dvd_imp_le)
  have "k dvd (j - i) - k" using assms(3) by (rule dvd_diff_nat) simp
  moreover have "j - i - k = j - (i + k)" by simp
  ultimately have "k dvd (j - (i + k))" by simp
  moreover have "i + k \<le> j" using le assms(2) by arith
  ultimately show ?thesis by simp
qed

lemma dvd_step2:
  assumes "i + k \<le> j" "k dvd (j - (i + k))"
  shows "k dvd (j - (i::nat))"
proof -
  have "j - i = (j - (i + k)) + k" using assms(1) by arith
  moreover have "k dvd (j - (i + k)) + k" using assms(2) by simp
  ultimately show ?thesis by simp
qed

lemma mod_eq_iff_dvd_diff:
  assumes "i < (k::nat)"
  shows "(i \<le> j \<and> k dvd (j - i)) = (j mod k = i)"
proof
  assume h: "i \<le> j \<and> k dvd (j - i)"
  then obtain q where q: "j - i = k * q" by (auto simp: dvd_def)
  have "j = i + k * q" using h q by arith
  then show "j mod k = i" using assms by simp
next
  assume h: "j mod k = i"
  have "j mod k \<le> j" by (rule mod_less_eq_dividend)
  moreover have "k dvd (j - j mod k)" by (rule dvd_minus_mod)
  ultimately show "i \<le> j \<and> k dvd (j - i)" using h by simp
qed

lemma set_py_range:
  "0 < k \<Longrightarrow> set (py_range i n k) = {j. i \<le> j \<and> j < n \<and> k dvd (j - i)}"
proof (induction i n k rule: py_range.induct)
  case (1 i n k)
  show ?case
  proof (cases "i < n")
    case False
    then show ?thesis by (auto simp: py_range_stop)
  next
    case True
    have "set (py_range i n k) = insert i (set (py_range (i + k) n k))"
      using True "1.prems" by (simp add: py_range_step)
    also have "set (py_range (i + k) n k) = {j. i + k \<le> j \<and> j < n \<and> k dvd (j - (i + k))}"
      using "1.IH" True "1.prems" by simp
    also have "insert i \<dots> = {j. i \<le> j \<and> j < n \<and> k dvd (j - i)}"
    proof (rule set_eqI)
      fix j
      show "(j \<in> insert i {j. i + k \<le> j \<and> j < n \<and> k dvd (j - (i + k))})
          = (j \<in> {j. i \<le> j \<and> j < n \<and> k dvd (j - i)})"
      proof (cases "j = i")
        case True
        then show ?thesis using \<open>i < n\<close> by simp
      next
        case False
        show ?thesis
          using False dvd_step[OF "1.prems", of i j] dvd_step2[of i k j] by auto
      qed
    qed
    finally show ?thesis .
  qed
qed

lemma sorted_py_range: "0 < k \<Longrightarrow> sorted (py_range i n k) \<and> distinct (py_range i n k)"
proof (induction i n k rule: py_range.induct)
  case (1 i n k)
  show ?case
  proof (cases "i < n")
    case False
    then show ?thesis by (simp add: py_range_stop)
  next
    case True
    have e: "py_range i n k = i # py_range (i + k) n k"
      using True "1.prems" by (simp add: py_range_step)
    have "\<forall>j \<in> set (py_range (i + k) n k). i \<le> j \<and> i \<noteq> j"
      using "1.prems" by (auto simp: set_py_range)
    then show ?thesis using e "1.IH" True "1.prems" by auto
  qed
qed

lemma py_range_filter:
  assumes "0 < k" "i < k"
  shows "py_range i n k = filter (\<lambda>j. j mod k = i) [0..<n]"
proof (rule sorted_distinct_set_unique)
  show "sorted (py_range i n k)" "distinct (py_range i n k)"
    using sorted_py_range[OF assms(1)] by auto
  show "sorted (filter (\<lambda>j. j mod k = i) [0..<n])" by (simp add: sorted_wrt_filter)
  show "distinct (filter (\<lambda>j. j mod k = i) [0..<n])" by simp
  have "\<And>j. (i \<le> j \<and> k dvd (j - i)) = (j mod k = i)"
    using mod_eq_iff_dvd_diff[OF assms(2)] by simp
  then show "set (py_range i n k) = set (filter (\<lambda>j. j mod k = i) [0..<n])"
    using assms by (auto simp: set_py_range)
qed


lemma mset_filter_disj:
  "(\<And>x. \<not> (P x \<and> Q x)) \<Longrightarrow>
   mset (filter P ys) + mset (filter Q ys) = mset (filter (\<lambda>x. P x \<or> Q x) ys)"
  by (induction ys) auto

lemma mset_concat_classes:
  "mset (concat (map (\<lambda>i. filter (\<lambda>j. f j = i) ys) [0..<k]))
     = mset (filter (\<lambda>j. f j < (k::nat)) ys)"
proof (induction k)
  case 0
  then show ?case by simp
next
  case (Suc k)
  have "mset (concat (map (\<lambda>i. filter (\<lambda>j. f j = i) ys) [0..<Suc k]))
      = mset (filter (\<lambda>j. f j < k) ys) + mset (filter (\<lambda>j. f j = k) ys)"
    using Suc.IH by simp
  also have "\<dots> = mset (filter (\<lambda>j. f j < k \<or> f j = k) ys)"
    by (rule mset_filter_disj) simp
  also have "(\<lambda>j. f j < k \<or> f j = k) = (\<lambda>j. f j < Suc k)"
    by (rule ext) arith
  finally show ?case .
qed

lemma make_batches_nth:
  assumes "i < k"
  shows "make_batches xs k ! i = map (\<lambda>j. xs ! j) (filter (\<lambda>j. j mod k = i) [0..<length xs])"
  using assms by (simp add: make_batches_def slice_from_step_def py_range_filter)

lemma make_batches_eq:
  "make_batches xs k
     = map (\<lambda>i. map (\<lambda>j. xs ! j) (filter (\<lambda>j. j mod k = i) [0..<length xs])) [0..<k]"
  by (simp add: make_batches_def slice_from_step_def py_range_filter)

lemma concat_make_batches:
  assumes "0 < k"
  shows "mset (concat (make_batches xs k)) = mset xs"
proof -
  let ?n = "length xs"
  have "concat (make_batches xs k)
      = map (\<lambda>j. xs ! j) (concat (map (\<lambda>i. filter (\<lambda>j. j mod k = i) [0..<?n]) [0..<k]))"
    by (simp add: make_batches_eq map_concat comp_def)
  then have "mset (concat (make_batches xs k))
      = image_mset (\<lambda>j. xs ! j) (mset (filter (\<lambda>j. j mod k < k) [0..<?n]))"
    by (simp add: mset_concat_classes[where f = "\<lambda>j. j mod k"] del: mset_filter mset_upt)
  also have "filter (\<lambda>j. j mod k < k) [0..<?n] = [0..<?n]"
    using assms by simp
  also have "image_mset (\<lambda>j. xs ! j) (mset [0..<?n]) = mset (map (\<lambda>j. xs ! j) [0..<?n])"
    by simp
  also have "map (\<lambda>j. xs ! j) [0..<?n] = xs"
    by (rule map_nth)
  finally show ?thesis .
qed

lemma subseq_make_batches:
  assumes "b \<in> set (make_batches xs k)"
  shows "subseq b xs"
proof -
  from assms obtain i where b: "b = map (\<lambda>j. xs ! j) (filter (\<lambda>j. j mod k = i) [0..<length xs])"
    by (auto simp: make_batches_eq)
  have "subseq (map (\<lambda>j. xs ! j) (filter (\<lambda>j. j mod k = i) [0..<length xs]))
      (map (\<lambda>j. xs ! j) [0..<length xs])"
    by (rule subseq_map) (rule subseq_filter_left)
  then show ?thesis unfolding b by (simp only: map_nth)
qed

text \<open>
  Claim C6. For every fragment list and every client count \<open>k \<ge> 1\<close>, the scheduler builds
  exactly \<open>k\<close> shards; shard \<open>i\<close> holds, in increasing index order, the fragments whose
  index \<open>j\<close> satisfies \<open>j mod k = i\<close>; the shards together hold every fragment exactly
  once (as multisets); and every shard is a subsequence of the fragment list, so the
  original relative order is kept.
\<close>

theorem make_batches_round_robin:
  assumes "1 \<le> k"
  shows "length (make_batches xs k) = k
    \<and> (\<forall>i<k. make_batches xs k ! i
          = map (\<lambda>j. xs ! j) (filter (\<lambda>j. j mod k = i) [0..<length xs]))
    \<and> mset (concat (make_batches xs k)) = mset xs
    \<and> (\<forall>b \<in> set (make_batches xs k). subseq b xs)"
proof -
  have "length (make_batches xs k) = k" by (simp add: make_batches_def)
  moreover have "mset (concat (make_batches xs k)) = mset xs"
    using assms by (simp add: concat_make_batches)
  ultimately show ?thesis
    using make_batches_nth[of _ k xs] subseq_make_batches[of _ xs k] by blast
qed

theorem make_batches_round_robin_witness:
  "(1::nat) \<le> 3
    \<and> make_batches [10, 11, 12, 13, 14, 15, 16 :: nat] 3 = [[10, 13, 16], [11, 14], [12, 15]]
    \<and> mset (concat [[10, 13, 16], [11, 14], [12, 15 :: nat]]) = mset [10, 11, 12, 13, 14, 15, 16]
    \<and> subseq [10, 13, 16 :: nat] [10, 11, 12, 13, 14, 15, 16]
    \<and> subseq [11, 14 :: nat] [10, 11, 12, 13, 14, 15, 16]
    \<and> subseq [12, 15 :: nat] [10, 11, 12, 13, 14, 15, 16]"
proof -
  have k: "(1::nat) \<le> 3" by simp
  have e: "make_batches [10, 11, 12, 13, 14, 15, 16 :: nat] 3 = [[10, 13, 16], [11, 14], [12, 15]]"
    by code_simp
  have "mset (concat (make_batches [10, 11, 12, 13, 14, 15, 16 :: nat] 3))
        = mset [10, 11, 12, 13, 14, 15, 16]
      \<and> (\<forall>b \<in> set (make_batches [10, 11, 12, 13, 14, 15, 16 :: nat] 3).
          subseq b [10, 11, 12, 13, 14, 15, 16])"
    using make_batches_round_robin[OF k, of "[10, 11, 12, 13, 14, 15, 16 :: nat]"] by blast
  then have "mset (concat [[10, 13, 16], [11, 14], [12, 15 :: nat]]) = mset [10, 11, 12, 13, 14, 15, 16]
      \<and> (\<forall>b \<in> set [[10, 13, 16], [11, 14], [12, 15 :: nat]].
          subseq b [10, 11, 12, 13, 14, 15, 16])"
    unfolding e .
  then show ?thesis using k e by (simp del: mset.simps concat.simps subseq_Cons2_iff)
qed

end
